theory Spec2Isabelle
  imports Main
begin

section \<open>Strings as the resolvers use them\<close>

text \<open>
  Strings are lists of 8-bit characters. The JavaScript string methods the resolvers call
  (\<open>toLowerCase\<close>, \<open>toUpperCase\<close>, \<open>trim\<close>, \<open>split\<close>, \<open>join\<close>) and MySQL's
  \<open>LOWER\<close> are modelled on ASCII text: letters \<open>A\<close>..\<open>Z\<close> and \<open>a\<close>..\<open>z\<close> change case,
  every other character is left alone, and white space is tab, line feed, vertical tab,
  form feed, carriage return and space.
\<close>

definition toLowerCase_char :: "char \<Rightarrow> char" where
  "toLowerCase_char c =
     (let n = (of_char c :: nat) in if 65 \<le> n \<and> n \<le> 90 then char_of (n + 32) else c)"

definition toUpperCase_char :: "char \<Rightarrow> char" where
  "toUpperCase_char c =
     (let n = (of_char c :: nat) in if 97 \<le> n \<and> n \<le> 122 then char_of (n - 32) else c)"

definition toLowerCase :: "string \<Rightarrow> string" where
  "toLowerCase s = map toLowerCase_char s"

text \<open>
  \<open>toUpperCase\<close> also turns the long s (U+017F, the bytes C5 BF of its UTF-8 encoding)
  into \<open>S\<close>, as \<open>String.prototype.toUpperCase\<close> does. The source compares an upper-cased
  string with the one word \<open>DESC\<close>, and outside ASCII the long s is the only character
  that upper-casing can turn into a part of that word: the upper case of any other
  character outside ASCII either is not made of ASCII letters or, as \<open>SS\<close> for the sharp
  s, does not fit into the word. Those characters are left as they stand, so the
  comparison comes out as it does in the source.
\<close>

fun toUpperCase :: "string \<Rightarrow> string" where
  "toUpperCase [] = []"
| "toUpperCase [c] = [toUpperCase_char c]"
| "toUpperCase (c # d # cs) =
     (if c = CHR 0xC5 \<and> d = CHR 0xBF then CHR ''S'' # toUpperCase cs
      else toUpperCase_char c # toUpperCase (d # cs))"

definition isWhiteSpace :: "char \<Rightarrow> bool" where
  "isWhiteSpace c = ((of_char c :: nat) \<in> {9, 10, 11, 12, 13, 32})"

definition trim :: "string \<Rightarrow> string" where
  "trim s = rev (dropWhile isWhiteSpace (rev (dropWhile isWhiteSpace s)))"

text \<open>\<open>s.split(sep)\<close> for a one-character separator: the empty string gives one empty piece.\<close>

fun split :: "char \<Rightarrow> string \<Rightarrow> string list" where
  "split sep [] = [[]]"
| "split sep (c # cs) =
     (if c = sep then [] # split sep cs
      else (case split sep cs of [] \<Rightarrow> [[c]] | p # ps \<Rightarrow> (c # p) # ps))"

text \<open>\<open>xs.join(sep)\<close>.\<close>

fun join :: "string \<Rightarrow> string list \<Rightarrow> string" where
  "join sep [] = []"
| "join sep [x] = x"
| "join sep (x # y # ys) = x @ sep @ join sep (y # ys)"

text \<open>The template literal \<open>`${n}`\<close> of an integer: its decimal digits, with a sign.\<close>

definition digit :: "nat \<Rightarrow> char" where
  "digit d = char_of (48 + d)"

function string_of_nat :: "nat \<Rightarrow> string" where
  "string_of_nat n = (if n < 10 then [digit n] else string_of_nat (n div 10) @ [digit (n mod 10)])"
  by pat_completeness auto
termination
  by (relation "measure id") auto

definition string_of_int :: "int \<Rightarrow> string" where
  "string_of_int i = (if i < 0 then CHR ''-'' # string_of_nat (nat (- i)) else string_of_nat (nat i))"

section \<open>The driver and the database functions the query names\<close>

text \<open>
  \<open>mysql.escapeId\<close>: the identifier between backticks, each backtick doubled and each dot
  turned into a qualifier separator.
\<close>

definition escapeId :: "string \<Rightarrow> string" where
  "escapeId s =
     ''`'' @ concat (map (\<lambda>c. if c = CHR ''`'' then ''``'' else if c = CHR ''.'' then ''`.`'' else [c]) s) @ ''`''"

text \<open>
  MySQL's \<open>FIND_IN_SET(str, strlist)\<close>: the 1-based position of \<open>str\<close> among the
  comma-separated elements of \<open>strlist\<close>, and 0 when it is not there or when \<open>strlist\<close> is
  the empty string. The elements are compared as they stand, white space included.
\<close>

definition set_elements :: "string \<Rightarrow> string list" where
  "set_elements strlist = (if strlist = [] then [] else split CHR '','' strlist)"

fun position :: "string \<Rightarrow> string list \<Rightarrow> nat" where
  "position str [] = 0"
| "position str (e # es) =
     (if e = str then 1 else (case position str es of 0 \<Rightarrow> 0 | Suc k \<Rightarrow> Suc (Suc k)))"

definition FIND_IN_SET :: "string \<Rightarrow> string \<Rightarrow> nat" where
  "FIND_IN_SET str strlist = position str (set_elements strlist)"

definition LOWER :: "string \<Rightarrow> string" where
  "LOWER s = map toLowerCase_char s"

section \<open>Data\<close>

text \<open>A row of the \<open>events\<close> table; every column may be NULL.\<close>

record RowDataPacket =
  title :: "string option"
  date_time :: "string option"
  venue :: "string option"
  link :: "string option"
  tags :: "string option"
  last_updated :: "string option"

text \<open>The GraphQL input \<open>EventSortInput\<close> and the arguments of the \<open>events\<close> query.
  Every argument is nullable, and so is every element of the \<open>tags\<close> list.\<close>

record EventSortInput =
  sortField :: "string option"
  sortOrder :: "string option"

record EventsArgs =
  startDate :: "string option"
  endDate :: "string option"
  dayOfWeek :: "string option"
  timeOfDayBefore :: "string option"
  timeOfDayAfter :: "string option"
  tagsArg :: "string option list option"
  titleContains :: "string option"
  venueContains :: "string option"
  sortArg :: "EventSortInput option"
  limitArg :: "int option"
  offsetArg :: "int option"

text \<open>What a resolver can throw: an \<open>Error\<close> with its message, a \<open>TypeError\<close> of the
  runtime, or an error of the database driver with its code.\<close>

datatype js_error = Error string | TypeError string | DriverError string

text \<open>
  The database as the resolvers see it: whether \<open>mysql.createConnection\<close> rejects, what
  \<open>connection.execute\<close> answers to a statement and its parameters, and whether
  \<open>connection.end\<close> rejects.
\<close>

record storage =
  createConnection :: "js_error option"
  execute :: "string \<Rightarrow> string list \<Rightarrow> js_error + RowDataPacket list"
  connection_end :: "js_error option"

text \<open>The calls a resolver makes on the driver, in order.\<close>

datatype call = CreateConnection | Execute string "string list" | End

section \<open>Building the query of \<open>events\<close>\<close>

type_synonym qstate = "string \<times> string list"

text \<open>JavaScript truthiness of a nullable string: null, undefined and the empty string are falsy.\<close>

definition truthy :: "string option \<Rightarrow> bool" where
  "truthy v = (case v of None \<Rightarrow> False | Some s \<Rightarrow> s \<noteq> [])"

text \<open>\<open>query += sql; params.push(p)\<close>.\<close>

definition push_clause :: "string \<Rightarrow> string \<Rightarrow> qstate \<Rightarrow> qstate" where
  "push_clause sql p qp = (fst qp @ sql, snd qp @ [p])"

text \<open>One \<open>if (v) { query += sql; params.push(mk v) }\<close>.\<close>

definition filter_step :: "string option \<Rightarrow> string \<Rightarrow> (string \<Rightarrow> string) \<Rightarrow> qstate \<Rightarrow> qstate" where
  "filter_step v sql mk qp = (if truthy v then push_clause sql (mk (the v)) qp else qp)"

definition tagCondition :: string where
  "tagCondition = ''FIND_IN_SET(LOWER(?), LOWER(tags)) > 0''"

text \<open>\<open>tags.map((tag) => tag.trim().toLowerCase())\<close>: a null element has no \<open>trim\<close>.\<close>

fun trim_lower_all :: "string option list \<Rightarrow> js_error + string list" where
  "trim_lower_all [] = Inr []"
| "trim_lower_all (None # ts) = Inl (TypeError ''Cannot read properties of null'')"
| "trim_lower_all (Some t # ts) =
     (case trim_lower_all ts of Inl e \<Rightarrow> Inl e | Inr ps \<Rightarrow> Inr (toLowerCase (trim t) # ps))"

definition tags_step :: "string option list option \<Rightarrow> qstate \<Rightarrow> js_error + qstate" where
  "tags_step tgs qp =
     (case tgs of
        None \<Rightarrow> Inr qp
      | Some ts \<Rightarrow>
          if length ts > 0 then
            (let tagConditions = join '' OR '' (map (\<lambda>tag. tagCondition) ts);
                 query = fst qp @ '' AND ('' @ tagConditions @ '')''
             in case trim_lower_all ts of
                  Inl e \<Rightarrow> Inl e
                | Inr ps \<Rightarrow> Inr (query, snd qp @ ps))
          else Inr qp)"

text \<open>Lines 89 to 134: the base statement and the filters, in the order of the source.\<close>

definition base_query :: string where
  "base_query = ''SELECT * FROM events WHERE 1=1''"

definition build_filters :: "EventsArgs \<Rightarrow> js_error + qstate" where
  "build_filters a =
     (let qp = (base_query, []);
          qp = filter_step (titleContains a) '' AND title LIKE ?'' (\<lambda>s. ''%'' @ s @ ''%'') qp;
          qp = filter_step (startDate a) '' AND DATE(date_time) >= ?'' (\<lambda>s. s) qp;
          qp = filter_step (endDate a) '' AND DATE(date_time) <= ?'' (\<lambda>s. s) qp;
          qp = filter_step (dayOfWeek a) '' AND DAYNAME(date_time) = ?'' (\<lambda>s. s) qp;
          qp = filter_step (timeOfDayBefore a) '' AND TIME(date_time) <= ?'' (\<lambda>s. s) qp;
          qp = filter_step (timeOfDayAfter a) '' AND TIME(date_time) >= ?'' (\<lambda>s. s) qp;
          qp = filter_step (venueContains a) '' AND venue LIKE ?'' (\<lambda>s. ''%'' @ s @ ''%'') qp
      in tags_step (tagsArg a) qp)"

text \<open>Lines 136 to 146: the sort field is checked against the allow-list, then interpolated.\<close>

definition validSortFields :: "string list" where
  "validSortFields = [''date_time'']"

definition sort_step :: "EventSortInput option \<Rightarrow> qstate \<Rightarrow> js_error + qstate" where
  "sort_step srt qp =
     (case srt of
        None \<Rightarrow> Inr qp
      | Some s \<Rightarrow>
          if truthy (sortField s) then
            (if \<not> List.member validSortFields (the (sortField s)) then Inl (Error ''Invalid sort field'')
             else
               (let ord = (if truthy (sortOrder s) \<and> toUpperCase (the (sortOrder s)) = ''DESC''
                           then ''DESC'' else ''ASC'')
                in Inr (fst qp @ '' ORDER BY '' @ escapeId (the (sortField s)) @ '' '' @ ord, snd qp)))
          else Inr qp)"

text \<open>Lines 148 to 156: \<open>typeof n === "number" && n > 0\<close> on a nullable GraphQL \<open>Int\<close>.\<close>

definition limit_step :: "int option \<Rightarrow> qstate \<Rightarrow> qstate" where
  "limit_step lim qp =
     (case lim of
        None \<Rightarrow> qp
      | Some n \<Rightarrow> if n > 0 then push_clause '' LIMIT ?'' (string_of_int n) qp else qp)"

definition offset_step :: "int option \<Rightarrow> qstate \<Rightarrow> qstate" where
  "offset_step off qp =
     (case off of
        None \<Rightarrow> qp
      | Some n \<Rightarrow> if n > 0 then push_clause '' OFFSET ?'' (string_of_int n) qp else qp)"

definition build_query :: "EventsArgs \<Rightarrow> js_error + qstate" where
  "build_query a =
     (case build_filters a of
        Inl e \<Rightarrow> Inl e
      | Inr qp \<Rightarrow>
          (case sort_step (sortArg a) qp of
             Inl e \<Rightarrow> Inl e
           | Inr qp' \<Rightarrow> Inr (offset_step (offsetArg a) (limit_step (limitArg a) qp'))))"

section \<open>The four resolvers\<close>

text \<open>
  Each resolver opens a connection before its \<open>try\<close>, so a rejected
  \<open>createConnection\<close> leaves the resolver as it is. Whatever the \<open>try\<close> block throws is
  replaced by the resolver's own \<open>Error\<close>; the \<open>finally\<close> block calls \<open>connection.end\<close>,
  and a rejection there replaces the outcome. A resolver returns its outcome and the
  driver calls it made.
\<close>

definition catch_as :: "string \<Rightarrow> js_error + 'a \<Rightarrow> js_error + 'a" where
  "catch_as msg r = (case r of Inl e \<Rightarrow> Inl (Error msg) | Inr v \<Rightarrow> Inr v)"

definition finally_end :: "storage \<Rightarrow> (js_error + 'a) \<times> call list \<Rightarrow> (js_error + 'a) \<times> call list" where
  "finally_end db rt =
     (case connection_end db of
        Some e \<Rightarrow> (Inl e, snd rt @ [End])
      | None \<Rightarrow> (fst rt, snd rt @ [End]))"

definition events_try :: "storage \<Rightarrow> EventsArgs \<Rightarrow> (js_error + RowDataPacket list) \<times> call list" where
  "events_try db a =
     (case build_query a of
        Inl e \<Rightarrow> (Inl e, [])
      | Inr qp \<Rightarrow> (execute db (fst qp) (snd qp), [Execute (fst qp) (snd qp)]))"

definition events :: "storage \<Rightarrow> EventsArgs \<Rightarrow> (js_error + RowDataPacket list) \<times> call list" where
  "events db a =
     (case createConnection db of
        Some e \<Rightarrow> (Inl e, [])
      | None \<Rightarrow>
          (let rt = events_try db a
           in finally_end db (catch_as ''Failed to fetch events'' (fst rt), CreateConnection # snd rt)))"

text \<open>\<open>row.tags.split(",").map((tag) => tag.trim().toLowerCase())\<close>, flat-mapped over the rows;
  a NULL \<open>tags\<close> column has no \<open>split\<close>.\<close>

fun allTags :: "RowDataPacket list \<Rightarrow> js_error + string list" where
  "allTags [] = Inr []"
| "allTags (row # rows) =
     (case tags row of
        None \<Rightarrow> Inl (TypeError ''Cannot read properties of null'')
      | Some s \<Rightarrow>
          (case allTags rows of
             Inl e \<Rightarrow> Inl e
           | Inr ts \<Rightarrow> Inr (map (\<lambda>tag. toLowerCase (trim tag)) (split CHR '','' s) @ ts)))"

text \<open>\<open>Array.from(new Set(xs))\<close>: the first occurrence of each element, in order.\<close>

definition array_from_set :: "'a list \<Rightarrow> 'a list" where
  "array_from_set xs = fold (\<lambda>x acc. if x \<in> set acc then acc else acc @ [x]) xs []"

definition uniqueTags_try :: "storage \<Rightarrow> (js_error + string list) \<times> call list" where
  "uniqueTags_try db =
     (let query = ''SELECT tags FROM events''
      in (case execute db query [] of
            Inl e \<Rightarrow> Inl e
          | Inr rows \<Rightarrow>
              (case allTags rows of Inl e \<Rightarrow> Inl e | Inr ts \<Rightarrow> Inr (array_from_set ts)),
          [Execute query []]))"

definition uniqueTags :: "storage \<Rightarrow> (js_error + string list) \<times> call list" where
  "uniqueTags db =
     (case createConnection db of
        Some e \<Rightarrow> (Inl e, [])
      | None \<Rightarrow>
          (let rt = uniqueTags_try db
           in finally_end db (catch_as ''Failed to fetch unique tags'' (fst rt), CreateConnection # snd rt)))"

text \<open>\<open>distinctVenues\<close> returns one object per row, holding the row's venue.\<close>

definition distinctVenues_try :: "storage \<Rightarrow> (js_error + string option list) \<times> call list" where
  "distinctVenues_try db =
     (let query = ''SELECT DISTINCT venue FROM events''
      in (case execute db query [] of
            Inl e \<Rightarrow> Inl e
          | Inr rows \<Rightarrow> Inr (map venue rows),
          [Execute query []]))"

definition distinctVenues :: "storage \<Rightarrow> (js_error + string option list) \<times> call list" where
  "distinctVenues db =
     (case createConnection db of
        Some e \<Rightarrow> (Inl e, [])
      | None \<Rightarrow>
          (let rt = distinctVenues_try db
           in finally_end db (catch_as ''Failed to fetch distinct venues'' (fst rt), CreateConnection # snd rt)))"

definition lastUpdated_try :: "storage \<Rightarrow> (js_error + string option) \<times> call list" where
  "lastUpdated_try db =
     (let query = ''SELECT MAX(last_updated) AS last_updated FROM events''
      in (case execute db query [] of
            Inl e \<Rightarrow> Inl e
          | Inr rows \<Rightarrow> (case rows of [] \<Rightarrow> Inr None | row # _ \<Rightarrow> Inr (last_updated row)),
          [Execute query []]))"

definition lastUpdated :: "storage \<Rightarrow> (js_error + string option) \<times> call list" where
  "lastUpdated db =
     (case createConnection db of
        Some e \<Rightarrow> (Inl e, [])
      | None \<Rightarrow>
          (let rt = lastUpdated_try db
           in finally_end db (catch_as ''Failed to fetch last_updated'' (fst rt), CreateConnection # snd rt)))"

section \<open>Vocabulary of the properties\<close>

text \<open>The number of \<open>?\<close> placeholders of a statement, and a statement with as many
  parameters as placeholders.\<close>

definition placeholders :: "string \<Rightarrow> nat" where
  "placeholders q = length (filter (\<lambda>c. c = CHR ''?'') q)"

definition balanced :: "qstate \<Rightarrow> bool" where
  "balanced qp = (length (snd qp) = placeholders (fst qp))"

text \<open>Sample inputs: a request with no argument, a database that answers every statement
  with no row, and a request that uses every kind of clause.\<close>

definition noArgs :: EventsArgs where
  "noArgs = \<lparr>startDate = None, endDate = None, dayOfWeek = None, timeOfDayBefore = None,
     timeOfDayAfter = None, tagsArg = None, titleContains = None, venueContains = None,
     sortArg = None, limitArg = None, offsetArg = None\<rparr>"

definition emptyDb :: storage where
  "emptyDb = \<lparr>createConnection = None, execute = (\<lambda>q ps. Inr []), connection_end = None\<rparr>"

definition fullArgs :: EventsArgs where
  "fullArgs = noArgs\<lparr>titleContains := Some ''jazz'', dayOfWeek := Some ''Friday'',
     tagsArg := Some [Some '' Jazz '', Some ''ROCK''],
     sortArg := Some \<lparr>sortField = Some ''date_time'', sortOrder = Some ''desc''\<rparr>,
     limitArg := Some 10, offsetArg := Some 20\<rparr>"

definition fullQuery :: string where
  "fullQuery = ''SELECT * FROM events WHERE 1=1 AND title LIKE ? AND DAYNAME(date_time) = ? AND (FIND_IN_SET(LOWER(?), LOWER(tags)) > 0 OR FIND_IN_SET(LOWER(?), LOWER(tags)) > 0) ORDER BY `date_time` DESC LIMIT ? OFFSET ?''"

definition fullParams :: "string list" where
  "fullParams = [''%jazz%'', ''Friday'', ''jazz'', ''rock'', ''10'', ''20'']"

text \<open>
  The reading of the filters as predicates: a predicate is a piece of SQL with its
  parameters, and the statement built from a base and a list of predicates appends
  \<open>AND\<close> and the predicate for each of them, collecting the parameters in the same order.
\<close>

type_synonym predicate = "string \<times> string list"

definition conjunction :: "string \<Rightarrow> predicate list \<Rightarrow> qstate" where
  "conjunction base preds =
     (base @ concat (map (\<lambda>p. '' AND '' @ fst p) preds), concat (map snd preds))"

definition one_if :: "bool \<Rightarrow> predicate \<Rightarrow> predicate list" where
  "one_if present p = (if present then [p] else [])"

definition tags_predicate :: "string option list \<Rightarrow> predicate" where
  "tags_predicate ts =
     (''('' @ join '' OR '' (replicate (length ts) tagCondition) @ '')'',
      map (\<lambda>t. toLowerCase (trim (the t))) ts)"

definition has_tags :: "string option list option \<Rightarrow> bool" where
  "has_tags tgs = (case tgs of None \<Rightarrow> False | Some ts \<Rightarrow> ts \<noteq> [])"

definition null_tag :: "string option list option \<Rightarrow> bool" where
  "null_tag tgs = (case tgs of None \<Rightarrow> False | Some ts \<Rightarrow> List.member ts None)"

text \<open>
  The predicates of a request, one for each filter field that is present, in the order
  of the source; \<open>present\<close> says when a string field counts as present. A tags list counts
  as present when it has an element.
\<close>

definition predicates :: "(string option \<Rightarrow> bool) \<Rightarrow> EventsArgs \<Rightarrow> predicate list" where
  "predicates present a =
     one_if (present (titleContains a)) (''title LIKE ?'', [''%'' @ the (titleContains a) @ ''%'']) @
     one_if (present (startDate a)) (''DATE(date_time) >= ?'', [the (startDate a)]) @
     one_if (present (endDate a)) (''DATE(date_time) <= ?'', [the (endDate a)]) @
     one_if (present (dayOfWeek a)) (''DAYNAME(date_time) = ?'', [the (dayOfWeek a)]) @
     one_if (present (timeOfDayBefore a)) (''TIME(date_time) <= ?'', [the (timeOfDayBefore a)]) @
     one_if (present (timeOfDayAfter a)) (''TIME(date_time) >= ?'', [the (timeOfDayAfter a)]) @
     one_if (present (venueContains a)) (''venue LIKE ?'', [''%'' @ the (venueContains a) @ ''%'']) @
     one_if (has_tags (tagsArg a)) (tags_predicate (the (tagsArg a)))"

text \<open>The specification's reading: a field is present when the request gives it a value.\<close>

definition given :: "string option \<Rightarrow> bool" where
  "given v = (v \<noteq> None)"

definition stated_predicates :: "EventsArgs \<Rightarrow> predicate list" where
  "stated_predicates a = predicates given a"

text \<open>The source's reading: a field is present when its value is truthy.\<close>

definition contributed_predicates :: "EventsArgs \<Rightarrow> predicate list" where
  "contributed_predicates a = predicates truthy a"

definition present_count :: "EventsArgs \<Rightarrow> nat" where
  "present_count a =
     length (filter truthy [titleContains a, startDate a, endDate a, dayOfWeek a,
                            timeOfDayBefore a, timeOfDayAfter a, venueContains a])
     + (if has_tags (tagsArg a) then 1 else 0)"

text \<open>A statement has a clause when the clause's keyword is one of its space-separated
  words; an \<open>Int\<close> argument is positive when it is a number above zero; a sort argument
  sorts when it names a field.\<close>

definition has_clause :: "string \<Rightarrow> string \<Rightarrow> bool" where
  "has_clause k q = List.member (split CHR '' '' q) k"

definition positive :: "int option \<Rightarrow> bool" where
  "positive v = (case v of None \<Rightarrow> False | Some n \<Rightarrow> n > 0)"

definition sorts :: "EventSortInput option \<Rightarrow> bool" where
  "sorts srt = (case srt of None \<Rightarrow> False | Some s \<Rightarrow> truthy (sortField s))"

text \<open>More sample inputs: a database whose every statement fails, one that refuses the
  connection, and a request that sorts by a field outside the allow-list.\<close>

definition failingDb :: storage where
  "failingDb = \<lparr>createConnection = None,
     execute = (\<lambda>q ps. Inl (DriverError ''ER_NO_SUCH_TABLE'')), connection_end = None\<rparr>"


definition badSortArgs :: EventsArgs where
  "badSortArgs = noArgs\<lparr>sortArg := Some \<lparr>sortField = Some ''title'', sortOrder = None\<rparr>\<rparr>"

text \<open>
  The driver calls of one request are scoped when there is none, or when the first opens
  the connection, the last ends it, and every call between the two is a statement.
\<close>

fun is_Execute :: "call \<Rightarrow> bool" where
  "is_Execute (Execute q ps) = True"
| "is_Execute c = False"

fun scoped :: "call list \<Rightarrow> bool" where
  "scoped [] = True"
| "scoped (c # cs) =
     (c = CreateConnection \<and> cs \<noteq> [] \<and> last cs = End \<and> list_all is_Execute (butlast cs))"

text \<open>
  Two strings are equal up to letter case when their upper-cased forms are the same. A
  sort order asks for descending order when it is given and equals \<open>DESC\<close> up to letter
  case; the direction the specification gives to a sort order is \<open>DESC\<close> then, and \<open>ASC\<close>
  otherwise. \<open>letter_cases w\<close> lists the spellings of an ASCII word in every letter case.
\<close>

definition equals_ignoring_case :: "string \<Rightarrow> string \<Rightarrow> bool" where
  "equals_ignoring_case x y = (toUpperCase x = toUpperCase y)"

definition descending_requested :: "string option \<Rightarrow> bool" where
  "descending_requested ord =
     (case ord of None \<Rightarrow> False | Some d \<Rightarrow> equals_ignoring_case d ''DESC'')"

definition direction :: "string option \<Rightarrow> string" where
  "direction ord = (if descending_requested ord then ''DESC'' else ''ASC'')"

fun letter_cases :: "string \<Rightarrow> string list" where
  "letter_cases [] = [[]]"
| "letter_cases (c # cs) =
     concat (map (\<lambda>w. [toLowerCase_char c # w, toUpperCase_char c # w]) (letter_cases cs))"

text \<open>
  The rows of a result are ascending when each row's \<open>date_time\<close> comes, in the order \<open>le\<close>
  of the column, no later than that of every row after it, and descending the other way
  round. A statement orders by \<open>date_time\<close> in a direction when the words
  \<open>ORDER BY `date_time`\<close> and the direction follow one another in it.
\<close>

definition ascending :: "(string option \<Rightarrow> string option \<Rightarrow> bool) \<Rightarrow> RowDataPacket list \<Rightarrow> bool" where
  "ascending le rows = sorted_wrt (\<lambda>r r'. le (date_time r) (date_time r')) rows"

definition descending :: "(string option \<Rightarrow> string option \<Rightarrow> bool) \<Rightarrow> RowDataPacket list \<Rightarrow> bool" where
  "descending le rows = sorted_wrt (\<lambda>r r'. le (date_time r') (date_time r)) rows"

fun occurs :: "string list \<Rightarrow> string list \<Rightarrow> bool" where
  "occurs ws [] = (ws = [])"
| "occurs ws (x # xs) = (take (length ws) (x # xs) = ws \<or> occurs ws xs)"

definition orders_by :: "string \<Rightarrow> string \<Rightarrow> bool" where
  "orders_by q dir = occurs [''ORDER'', ''BY'', ''`date_time`'', dir] (split CHR '' '' q)"

text \<open>
  A sample order of the column (NULL first, then the strings as the digits of a date
  compare), two rows, and a database that honours the \<open>ORDER BY\<close> clause of a statement.
\<close>

fun string_le :: "string \<Rightarrow> string \<Rightarrow> bool" where
  "string_le [] ys = True"
| "string_le (x # xs) [] = False"
| "string_le (x # xs) (y # ys) =
     ((of_char x :: nat) < of_char y \<or> (x = y \<and> string_le xs ys))"

definition datetime_le :: "string option \<Rightarrow> string option \<Rightarrow> bool" where
  "datetime_le x y =
     (case x of None \<Rightarrow> True | Some u \<Rightarrow> (case y of None \<Rightarrow> False | Some v \<Rightarrow> string_le u v))"

definition rowAt :: "string \<Rightarrow> RowDataPacket" where
  "rowAt d = \<lparr>title = None, date_time = Some d, venue = None, link = None, tags = None,
     last_updated = None\<rparr>"

definition calendarDb :: storage where
  "calendarDb = \<lparr>createConnection = None,
     execute = (\<lambda>q ps.
        if orders_by q ''DESC'' then
          (if orders_by q ''ASC'' then Inr []
           else Inr [rowAt ''2024-03-05 20:00:00'', rowAt ''2024-01-12 19:30:00''])
        else Inr [rowAt ''2024-01-12 19:30:00'', rowAt ''2024-03-05 20:00:00'']),
     connection_end = None\<rparr>"

definition longSArgs :: EventsArgs where
  "longSArgs = noArgs\<lparr>sortArg := Some \<lparr>sortField = Some ''date_time'',
     sortOrder = Some [CHR ''d'', CHR ''e'', CHR 0xC5, CHR 0xBF, CHR ''c'']\<rparr>\<rparr>"

text \<open>Requests that sort by the permitted field, and one with an offset and no usable limit.\<close>

definition ascArgs :: EventsArgs where
  "ascArgs = noArgs\<lparr>sortArg := Some \<lparr>sortField = Some ''date_time'', sortOrder = None\<rparr>\<rparr>"

definition descArgs :: EventsArgs where
  "descArgs = noArgs\<lparr>sortArg := Some \<lparr>sortField = Some ''date_time'', sortOrder = Some ''dEsC''\<rparr>\<rparr>"

definition offsetOnlyArgs :: EventsArgs where
  "offsetOnlyArgs = noArgs\<lparr>limitArg := Some 0, offsetArg := Some 20\<rparr>"

text \<open>A database that, as MySQL's grammar does, refuses a statement with an \<open>OFFSET\<close>
  and no \<open>LIMIT\<close>.\<close>

definition strictDb :: storage where
  "strictDb = \<lparr>createConnection = None,
     execute = (\<lambda>q ps. if has_clause ''OFFSET'' q \<and> \<not> has_clause ''LIMIT'' q
                         then Inl (DriverError ''ER_PARSE_ERROR'') else Inr []),
     connection_end = None\<rparr>"

text \<open>
  The tags group on a row. \<open>tag_condition p row\<close> says that
  \<open>FIND_IN_SET(LOWER(?), LOWER(tags)) > 0\<close> is true on the row for the parameter \<open>p\<close>
  (on a NULL column it is not), and \<open>tags_group\<close> is the \<open>OR\<close> of the conditions of the
  parameters.
\<close>

definition tag_condition :: "string \<Rightarrow> RowDataPacket \<Rightarrow> bool" where
  "tag_condition p row =
     (case tags row of None \<Rightarrow> False | Some s \<Rightarrow> FIND_IN_SET (LOWER p) (LOWER s) > 0)"

definition tags_group :: "string list \<Rightarrow> RowDataPacket \<Rightarrow> bool" where
  "tags_group ps row = list_ex (\<lambda>p. tag_condition p row) ps"

text \<open>
  The tags of a record as the repository itself lists them: the pieces of the column
  between commas, each trimmed and lowercased, as \<open>uniqueTags\<close> computes them (lines 174
  to 176); a NULL column has none. A requested tag is listed on a record when it is one
  of them.
\<close>

definition record_tags :: "RowDataPacket \<Rightarrow> string list" where
  "record_tags row = (case allTags [row] of Inl e \<Rightarrow> [] | Inr ts \<Rightarrow> ts)"

definition listed_on :: "string \<Rightarrow> RowDataPacket \<Rightarrow> bool" where
  "listed_on t row = List.member (record_tags row) t"

text \<open>Sample rows, and a database whose one row stores its tags with a space after the comma.\<close>

definition rowWithTags :: "string \<Rightarrow> RowDataPacket" where
  "rowWithTags s = \<lparr>title = None, date_time = None, venue = None, link = None, tags = Some s,
     last_updated = None\<rparr>"

definition spacedDb :: storage where
  "spacedDb = \<lparr>createConnection = None, execute = (\<lambda>q ps. Inr [rowWithTags ''music, jazz'']),
     connection_end = None\<rparr>"

section \<open>Parameters and placeholders\<close>

lemma placeholders_Nil: "placeholders [] = 0"
  by (simp add: placeholders_def)

lemma placeholders_Cons: "placeholders (c # s) = (if c = CHR ''?'' then 1 else 0) + placeholders s"
  by (simp add: placeholders_def)

lemma placeholders_append: "placeholders (x @ y) = placeholders x + placeholders y"
  by (simp add: placeholders_def)

lemma placeholders_join_replicate:
  "placeholders (join sep (replicate n c)) = n * placeholders c + (n - 1) * placeholders sep"
proof (induction n)
  case 0
  show ?case by (simp add: placeholders_def)
next
  case (Suc n)
  show ?case
  proof (cases n)
    case 0
    then show ?thesis by simp
  next
    case (Suc m)
    then have "replicate (Suc n) c = c # c # replicate m c" by simp
    then have "join sep (replicate (Suc n) c) = c @ sep @ join sep (replicate n c)"
      using Suc by simp
    with Suc.IH Suc show ?thesis by (simp add: placeholders_append)
  qed
qed

lemma placeholders_tagCondition: "placeholders tagCondition = 1"
  by (simp add: placeholders_def tagCondition_def)

lemma placeholders_OR: "placeholders '' OR '' = 0"
  by (simp add: placeholders_def)

lemma trim_lower_all_length: "trim_lower_all ts = Inr ps \<Longrightarrow> length ps = length ts"
  by (induction ts arbitrary: ps rule: trim_lower_all.induct) (auto split: sum.splits)

lemma map_tagCondition: "map (\<lambda>tag. tagCondition) ts = replicate (length ts) tagCondition"
  by (simp add: map_replicate_const)

lemma tags_step_Some:
  assumes "tags_step (Some ts) qp = Inr qp'" and "ts \<noteq> []"
  obtains ps where "trim_lower_all ts = Inr ps"
    and "qp' = (fst qp @ '' AND ('' @ join '' OR '' (replicate (length ts) tagCondition) @ '')'',
                snd qp @ ps)"
  using assms
  by (auto simp: tags_step_def Let_def map_tagCondition split: sum.splits)

lemma balanced_push_clause:
  "balanced qp \<Longrightarrow> placeholders sql = 1 \<Longrightarrow> balanced (push_clause sql p qp)"
  by (simp add: balanced_def push_clause_def placeholders_append)

lemma balanced_filter_step:
  "balanced qp \<Longrightarrow> placeholders sql = 1 \<Longrightarrow> balanced (filter_step v sql mk qp)"
  by (simp add: filter_step_def balanced_push_clause)

lemma tags_step_counts:
  assumes "tags_step (Some ts) qp = Inr qp'"
  shows "placeholders (fst qp') = placeholders (fst qp) + length ts
       \<and> length (snd qp') = length (snd qp) + length ts"
proof (cases "ts = []")
  case True
  with assms show ?thesis by (simp add: tags_step_def)
next
  case False
  from assms False obtain ps where ps: "trim_lower_all ts = Inr ps"
    and qp': "qp' = (fst qp @ '' AND ('' @ join '' OR '' (replicate (length ts) tagCondition) @ '')'',
                     snd qp @ ps)"
    by (rule tags_step_Some)
  have "placeholders (join '' OR '' (replicate (length ts) tagCondition)) = length ts"
    unfolding placeholders_join_replicate placeholders_tagCondition placeholders_OR by simp
  then show ?thesis
    using trim_lower_all_length[OF ps]
    by (simp add: qp' placeholders_append placeholders_Cons placeholders_Nil)
qed

lemma balanced_tags_step:
  assumes "balanced qp" and "tags_step tgs qp = Inr qp'"
  shows "balanced qp'"
proof (cases tgs)
  case None
  with assms show ?thesis by (simp add: tags_step_def)
next
  case (Some ts)
  with assms tags_step_counts[of ts qp qp'] show ?thesis by (simp add: balanced_def)
qed

lemma member_validSortFields: "f \<in> set validSortFields \<longleftrightarrow> f = ''date_time''"
  by (auto simp: validSortFields_def)

lemma escapeId_date_time: "escapeId ''date_time'' = ''`date_time`''"
  by (simp add: escapeId_def)

lemma balanced_sort_step:
  "balanced qp \<Longrightarrow> sort_step srt qp = Inr qp' \<Longrightarrow> balanced qp'"
  by (auto simp: sort_step_def balanced_def Let_def placeholders_append member_validSortFields
        escapeId_date_time placeholders_Cons placeholders_Nil split: option.splits if_splits)

lemma balanced_limit_step: "balanced qp \<Longrightarrow> balanced (limit_step lim qp)"
  by (auto simp: limit_step_def balanced_push_clause placeholders_def split: option.splits)

lemma balanced_offset_step: "balanced qp \<Longrightarrow> balanced (offset_step off qp)"
  by (auto simp: offset_step_def balanced_push_clause placeholders_def split: option.splits)

lemma balanced_base: "balanced (base_query, [])"
  by (simp add: balanced_def placeholders_def base_query_def)

lemma balanced_build_filters: "build_filters a = Inr qp \<Longrightarrow> balanced qp"
  unfolding build_filters_def Let_def
  by (rule balanced_tags_step[rotated], assumption)
     (intro balanced_filter_step balanced_base; simp add: placeholders_def)

lemma balanced_build_query: "build_query a = Inr qp \<Longrightarrow> balanced qp"
  by (auto simp: build_query_def split: sum.splits
      intro!: balanced_offset_step balanced_limit_step
      dest: balanced_build_filters balanced_sort_step)

lemma build_query_fullArgs: "build_query fullArgs = Inr (fullQuery, fullParams)"
  by code_simp

text \<open>
  Claim C10. Whatever the arguments of \<open>events\<close>, when the query is built the number of
  accumulated parameters equals the number of \<open>?\<close> placeholders of the statement; the tags
  group adds one placeholder and one parameter for each requested tag.
\<close>

theorem events_params_match_placeholders:
  "(build_query a = Inr (q, ps) \<longrightarrow> length ps = placeholders q)
   \<and> (tags_step (Some ts) qp = Inr qp' \<longrightarrow>
        placeholders (fst qp') = placeholders (fst qp) + length ts
        \<and> length (snd qp') = length (snd qp) + length ts)"
  using balanced_build_query[of a "(q, ps)"] tags_step_counts[of ts qp qp']
  by (simp add: balanced_def)

theorem events_params_match_placeholders_witness:
  "build_query fullArgs = Inr (fullQuery, fullParams)
   \<and> length fullParams = placeholders fullQuery
   \<and> placeholders fullQuery = 6
   \<and> tags_step (Some [Some '' Jazz '', Some ''ROCK'']) (''q'', [])
       = Inr (''q AND (FIND_IN_SET(LOWER(?), LOWER(tags)) > 0 OR FIND_IN_SET(LOWER(?), LOWER(tags)) > 0)'',
              [''jazz'', ''rock''])
   \<and> placeholders ''q AND (FIND_IN_SET(LOWER(?), LOWER(tags)) > 0 OR FIND_IN_SET(LOWER(?), LOWER(tags)) > 0)''
       = placeholders ''q'' + length [Some '' Jazz '', Some ''ROCK'']"
proof -
  have t: "tags_step (Some [Some '' Jazz '', Some ''ROCK'']) (''q'', [])
       = Inr (''q AND (FIND_IN_SET(LOWER(?), LOWER(tags)) > 0 OR FIND_IN_SET(LOWER(?), LOWER(tags)) > 0)'',
              [''jazz'', ''rock''])"
    by code_simp
  have n: "placeholders fullQuery = 6"
    by code_simp
  show ?thesis
    using build_query_fullArgs t n
      events_params_match_placeholders[of fullArgs fullQuery fullParams
        "[Some '' Jazz '', Some ''ROCK'']" "(''q'', [])"
        "(''q AND (FIND_IN_SET(LOWER(?), LOWER(tags)) > 0 OR FIND_IN_SET(LOWER(?), LOWER(tags)) > 0)'', [''jazz'', ''rock''])"]
    by simp
qed

section \<open>The filters as a conjunction\<close>

lemma conjunction_Nil: "conjunction base [] = (base, [])"
  by (simp add: conjunction_def)

lemma filter_step_conjunction:
  "filter_step v ('' AND '' @ sql) mk (conjunction base preds)
     = conjunction base (preds @ one_if (truthy v) (sql, [mk (the v)]))"
  by (simp add: filter_step_def one_if_def push_clause_def conjunction_def)

lemma trim_lower_all_no_null:
  "None \<notin> set ts \<Longrightarrow> trim_lower_all ts = Inr (map (\<lambda>t. toLowerCase (trim (the t))) ts)"
  by (induction ts rule: trim_lower_all.induct) auto

lemma trim_lower_all_null:
  "None \<in> set ts \<Longrightarrow> trim_lower_all ts = Inl (TypeError ''Cannot read properties of null'')"
  by (induction ts rule: trim_lower_all.induct) (auto split: sum.splits)

lemma tags_step_conjunction:
  "tags_step tgs (conjunction base preds)
     = (if null_tag tgs then Inl (TypeError ''Cannot read properties of null'')
        else Inr (conjunction base (preds @ one_if (has_tags tgs) (tags_predicate (the tgs)))))"
proof (cases tgs)
  case None
  then show ?thesis by (simp add: tags_step_def null_tag_def has_tags_def one_if_def)
next
  case (Some ts)
  show ?thesis
  proof (cases "None \<in> set ts")
    case True
    then have "ts \<noteq> []" by auto
    with True Some show ?thesis
      by (simp add: tags_step_def null_tag_def trim_lower_all_null Let_def)
  next
    case False
    with Some show ?thesis
      by (simp add: tags_step_def null_tag_def has_tags_def one_if_def Let_def
            trim_lower_all_no_null map_tagCondition tags_predicate_def conjunction_def)
  qed
qed

lemma build_filters_conjunction:
  "build_filters a
     = (if null_tag (tagsArg a) then Inl (TypeError ''Cannot read properties of null'')
        else Inr (conjunction base_query (contributed_predicates a)))"
proof -
  have lit: "'' AND title LIKE ?'' = '' AND '' @ ''title LIKE ?''"
    "'' AND DATE(date_time) >= ?'' = '' AND '' @ ''DATE(date_time) >= ?''"
    "'' AND DATE(date_time) <= ?'' = '' AND '' @ ''DATE(date_time) <= ?''"
    "'' AND DAYNAME(date_time) = ?'' = '' AND '' @ ''DAYNAME(date_time) = ?''"
    "'' AND TIME(date_time) <= ?'' = '' AND '' @ ''TIME(date_time) <= ?''"
    "'' AND TIME(date_time) >= ?'' = '' AND '' @ ''TIME(date_time) >= ?''"
    "'' AND venue LIKE ?'' = '' AND '' @ ''venue LIKE ?''"
    by simp_all
  have start: "(base_query, []) = conjunction base_query []"
    by (simp add: conjunction_Nil)
  show ?thesis
    unfolding build_filters_def Let_def lit start filter_step_conjunction tags_step_conjunction
      contributed_predicates_def predicates_def
    by simp
qed

lemma length_contributed: "length (contributed_predicates a) = present_count a"
  by (simp add: contributed_predicates_def predicates_def one_if_def present_count_def)

text \<open>
  Claim C2, as amended. Each filter field that is present and not empty (a non-empty
  string, a tags list with at least one element) contributes exactly one parameterized
  predicate; a field that is absent, an empty string or an empty tags list contributes none.
  Unless a requested tag is null, the statement built by lines 89 to 134 is the base
  select-all statement followed by \<open>AND\<close> and the predicate for each contributed predicate,
  in the order of the source, with the parameters in the same order; with a null tag no
  statement is built.
\<close>

theorem filters_are_anded:
  "build_filters a
     = (if null_tag (tagsArg a) then Inl (TypeError ''Cannot read properties of null'')
        else Inr (conjunction base_query (contributed_predicates a)))
   \<and> length (contributed_predicates a) = present_count a"
  using build_filters_conjunction[of a] length_contributed[of a] by simp

theorem filters_are_anded_witness:
  "build_filters fullArgs
     = Inr (conjunction base_query
         [(''title LIKE ?'', [''%jazz%'']),
          (''DAYNAME(date_time) = ?'', [''Friday'']),
          (''(FIND_IN_SET(LOWER(?), LOWER(tags)) > 0 OR FIND_IN_SET(LOWER(?), LOWER(tags)) > 0)'',
           [''jazz'', ''rock''])])
   \<and> present_count fullArgs = 3"
proof -
  have n: "null_tag (tagsArg fullArgs) = False"
    by code_simp
  have c: "contributed_predicates fullArgs =
         [(''title LIKE ?'', [''%jazz%'']),
          (''DAYNAME(date_time) = ?'', [''Friday'']),
          (''(FIND_IN_SET(LOWER(?), LOWER(tags)) > 0 OR FIND_IN_SET(LOWER(?), LOWER(tags)) > 0)'',
           [''jazz'', ''rock''])]"
    by code_simp
  have k: "present_count fullArgs = 3"
    by code_simp
  show ?thesis
    using filters_are_anded[of fullArgs] unfolding n c k by simp
qed

text \<open>
  Claim C2 as stated fails: a \<open>titleContains\<close> that is given as the empty string is
  present in the request, and the statement built is the base statement alone.
\<close>

theorem filters_are_anded_counterexample:
  "titleContains (noArgs\<lparr>titleContains := Some ''''\<rparr>) = Some ''''
   \<and> build_filters (noArgs\<lparr>titleContains := Some ''''\<rparr>) = Inr (base_query, [])
   \<and> build_filters (noArgs\<lparr>titleContains := Some ''''\<rparr>)
       \<noteq> Inr (conjunction base_query (stated_predicates (noArgs\<lparr>titleContains := Some ''''\<rparr>)))"
  by (simp add: build_filters_conjunction null_tag_def noArgs_def contributed_predicates_def
        stated_predicates_def predicates_def one_if_def truthy_def given_def has_tags_def
        conjunction_def)

section \<open>The clauses of the statement\<close>

lemma split_not_Nil: "split sep s \<noteq> []"
  by (induction s) (auto split: list.splits)

lemma split_append_sep: "split sep (x @ sep # y) = split sep x @ split sep y"
proof (induction x)
  case Nil
  show ?case by simp
next
  case (Cons d xs)
  obtain p ps where p: "split sep xs = p # ps"
    using split_not_Nil[of sep xs] by (cases "split sep xs") auto
  with Cons show ?case by simp
qed

lemma has_clause_append:
  "has_clause k (q @ CHR '' '' # s) \<longleftrightarrow> has_clause k q \<or> has_clause k s"
  by (auto simp: has_clause_def split_append_sep)

lemma join_replicate_Suc:
  "join sep (replicate (Suc m) c) = c @ concat (replicate m (sep @ c))"
proof (induction m)
  case 0
  show ?case by simp
next
  case (Suc m)
  have "join sep (replicate (Suc (Suc m)) c) = c @ sep @ join sep (replicate (Suc m) c)"
    by simp
  with Suc show ?case by simp
qed

lemma has_clause_repeat:
  "has_clause k (p @ concat (replicate m (CHR '' '' # r)))
     \<longleftrightarrow> has_clause k p \<or> (m > 0 \<and> has_clause k r)"
proof (induction m arbitrary: p)
  case 0
  show ?case by simp
next
  case (Suc m)
  have "p @ concat (replicate (Suc m) (CHR '' '' # r)) = (p @ CHR '' '' # r) @ concat (replicate m (CHR '' '' # r))"
    by simp
  then show ?case
    using Suc[of "p @ CHR '' '' # r"] by (auto simp: has_clause_append)
qed

lemma has_clause_tags_predicate:
  assumes "ts \<noteq> []" and "k = ''LIMIT'' \<or> k = ''OFFSET'' \<or> k = ''ORDER''"
  shows "\<not> has_clause k (fst (tags_predicate ts))"
proof -
  obtain m where m: "length ts = Suc m"
    using assms(1) by (cases ts) auto
  have shape: "fst (tags_predicate ts)
      = (''(FIND_IN_SET(LOWER(?),'' @ CHR '' '' # ''LOWER(tags)) >'' @ concat (replicate m (CHR '' '' # ''0 OR FIND_IN_SET(LOWER(?), LOWER(tags)) >'')))
        @ CHR '' '' # ''0)''"
    unfolding tags_predicate_def m join_replicate_Suc tagCondition_def
    by (induction m) simp_all
  show ?thesis
    unfolding shape has_clause_append has_clause_repeat
    using assms(2) by (auto simp: has_clause_def)
qed

lemma has_clause_conjunction:
  "has_clause k (fst (conjunction base preds))
     \<longleftrightarrow> has_clause k base \<or> (\<exists>p \<in> set preds. has_clause k (''AND'' @ CHR '' '' # fst p))"
proof (induction preds rule: rev_induct)
  case Nil
  show ?case by (simp add: conjunction_def)
next
  case (snoc p preds)
  have "fst (conjunction base (preds @ [p]))
          = fst (conjunction base preds) @ CHR '' '' # (''AND'' @ CHR '' '' # fst p)"
    by (simp add: conjunction_def)
  then show ?case
    using snoc by (auto simp: has_clause_append)
qed

lemma no_clause_in_predicates:
  assumes "k = ''LIMIT'' \<or> k = ''OFFSET'' \<or> k = ''ORDER''" and "p \<in> set (predicates present a)"
  shows "\<not> has_clause k (''AND'' @ CHR '' '' # fst p)"
proof -
  have fixed: "\<not> has_clause k ''AND''" "\<not> has_clause k ''title LIKE ?''"
    "\<not> has_clause k ''DATE(date_time) >= ?''" "\<not> has_clause k ''DATE(date_time) <= ?''"
    "\<not> has_clause k ''DAYNAME(date_time) = ?''" "\<not> has_clause k ''TIME(date_time) <= ?''"
    "\<not> has_clause k ''TIME(date_time) >= ?''" "\<not> has_clause k ''venue LIKE ?''"
    using assms(1) by (auto simp: has_clause_def)
  have tags: "has_tags (tagsArg a) \<Longrightarrow> \<not> has_clause k (fst (tags_predicate (the (tagsArg a))))"
    using assms(1) by (intro has_clause_tags_predicate) (auto simp: has_tags_def split: option.splits)
  from assms(2) have "\<not> has_clause k (fst p)"
    using fixed tags
    by (auto simp: predicates_def one_if_def split: if_splits)
  with fixed(1) show ?thesis
    using has_clause_append[of k "''AND''" "fst p"] by simp
qed

lemma no_clause_in_filters:
  assumes "build_filters a = Inr qp" and "k = ''LIMIT'' \<or> k = ''OFFSET'' \<or> k = ''ORDER''"
  shows "\<not> has_clause k (fst qp)"
proof -
  from assms(1) have qp: "qp = conjunction base_query (contributed_predicates a)"
    by (simp add: build_filters_conjunction split: if_splits)
  have "\<not> has_clause k base_query"
    using assms(2) by (auto simp: has_clause_def base_query_def)
  then show ?thesis
    unfolding qp has_clause_conjunction contributed_predicates_def
    using no_clause_in_predicates[OF assms(2)] by blast
qed

lemma sort_step_clauses:
  assumes "sort_step srt qp = Inr qp'"
  shows "has_clause ''LIMIT'' (fst qp') = has_clause ''LIMIT'' (fst qp)"
    and "has_clause ''OFFSET'' (fst qp') = has_clause ''OFFSET'' (fst qp)"
    and "has_clause ''ORDER'' (fst qp') = (has_clause ''ORDER'' (fst qp) \<or> sorts srt)"
  using assms
  by (auto simp: sort_step_def sorts_def Let_def member_validSortFields escapeId_date_time
        has_clause_append split: option.splits if_splits)
     (auto simp: has_clause_def)

lemma limit_step_clauses:
  "has_clause ''LIMIT'' (fst (limit_step lim qp)) = (has_clause ''LIMIT'' (fst qp) \<or> positive lim)"
  "has_clause ''OFFSET'' (fst (limit_step lim qp)) = has_clause ''OFFSET'' (fst qp)"
  "has_clause ''ORDER'' (fst (limit_step lim qp)) = has_clause ''ORDER'' (fst qp)"
  by (auto simp: limit_step_def positive_def push_clause_def has_clause_append split: option.splits)
     (auto simp: has_clause_def)

lemma offset_step_clauses:
  "has_clause ''LIMIT'' (fst (offset_step off qp)) = has_clause ''LIMIT'' (fst qp)"
  "has_clause ''OFFSET'' (fst (offset_step off qp)) = (has_clause ''OFFSET'' (fst qp) \<or> positive off)"
  "has_clause ''ORDER'' (fst (offset_step off qp)) = has_clause ''ORDER'' (fst qp)"
  by (auto simp: offset_step_def positive_def push_clause_def has_clause_append split: option.splits)
     (auto simp: has_clause_def)

lemma build_query_clauses:
  assumes "build_query a = Inr qp"
  shows "has_clause ''LIMIT'' (fst qp) = positive (limitArg a)"
    and "has_clause ''OFFSET'' (fst qp) = positive (offsetArg a)"
    and "has_clause ''ORDER'' (fst qp) = sorts (sortArg a)"
proof -
  from assms obtain qf qs where f: "build_filters a = Inr qf" and s: "sort_step (sortArg a) qf = Inr qs"
    and qp: "qp = offset_step (offsetArg a) (limit_step (limitArg a) qs)"
    by (auto simp: build_query_def split: sum.splits)
  note nf = no_clause_in_filters[OF f]
  show "has_clause ''LIMIT'' (fst qp) = positive (limitArg a)"
    unfolding qp offset_step_clauses limit_step_clauses sort_step_clauses[OF s] using nf by simp
  show "has_clause ''OFFSET'' (fst qp) = positive (offsetArg a)"
    unfolding qp offset_step_clauses limit_step_clauses sort_step_clauses[OF s] using nf by simp
  show "has_clause ''ORDER'' (fst qp) = sorts (sortArg a)"
    unfolding qp offset_step_clauses limit_step_clauses sort_step_clauses[OF s] using nf by simp
qed

lemma build_filters_limitArg: "build_filters (a\<lparr>limitArg := l\<rparr>) = build_filters a"
  by (simp add: build_filters_def)

lemma build_filters_offsetArg: "build_filters (a\<lparr>offsetArg := l\<rparr>) = build_filters a"
  by (simp add: build_filters_def)

lemma limit_ignored: "n \<le> 0 \<Longrightarrow> build_query (a\<lparr>limitArg := Some n\<rparr>) = build_query (a\<lparr>limitArg := None\<rparr>)"
  by (simp add: build_query_def build_filters_limitArg limit_step_def split: sum.splits)

lemma offset_ignored: "n \<le> 0 \<Longrightarrow> build_query (a\<lparr>offsetArg := Some n\<rparr>) = build_query (a\<lparr>offsetArg := None\<rparr>)"
  by (simp add: build_query_def build_filters_offsetArg offset_step_def split: sum.splits)

lemma events_try_cong: "build_query a = build_query b \<Longrightarrow> events_try db a = events_try db b"
  by (simp add: events_try_def)

lemma events_cong: "build_query a = build_query b \<Longrightarrow> events db a = events db b"
  by (simp add: events_def events_try_cong[of a b] split: option.splits)

text \<open>
  Claim C4. A limit or an offset that is zero or negative is ignored: the statement, its
  parameters and the outcome of \<open>events\<close> are those of the request without that argument.
  The built statement has a \<open>LIMIT\<close> clause exactly when the limit is a positive number,
  and an \<open>OFFSET\<close> clause exactly when the offset is.
\<close>

theorem limit_offset_only_when_positive:
  "(n \<le> 0 \<longrightarrow> build_query (a\<lparr>limitArg := Some n\<rparr>) = build_query (a\<lparr>limitArg := None\<rparr>)
              \<and> events db (a\<lparr>limitArg := Some n\<rparr>) = events db (a\<lparr>limitArg := None\<rparr>))
   \<and> (m \<le> 0 \<longrightarrow> build_query (a\<lparr>offsetArg := Some m\<rparr>) = build_query (a\<lparr>offsetArg := None\<rparr>)
              \<and> events db (a\<lparr>offsetArg := Some m\<rparr>) = events db (a\<lparr>offsetArg := None\<rparr>))
   \<and> (build_query a = Inr (q, ps) \<longrightarrow>
         has_clause ''LIMIT'' q = positive (limitArg a)
         \<and> has_clause ''OFFSET'' q = positive (offsetArg a))"
  using limit_ignored[of n a] offset_ignored[of m a]
    events_cong[of "a\<lparr>limitArg := Some n\<rparr>" "a\<lparr>limitArg := None\<rparr>" db]
    events_cong[of "a\<lparr>offsetArg := Some m\<rparr>" "a\<lparr>offsetArg := None\<rparr>" db]
    build_query_clauses(1,2)[of a "(q, ps)"]
  by simp

theorem limit_offset_only_when_positive_witness:
  "events emptyDb (fullArgs\<lparr>limitArg := Some (- 5)\<rparr>) = events emptyDb (fullArgs\<lparr>limitArg := None\<rparr>)
   \<and> events emptyDb (fullArgs\<lparr>offsetArg := Some 0\<rparr>) = events emptyDb (fullArgs\<lparr>offsetArg := None\<rparr>)
   \<and> build_query fullArgs = Inr (fullQuery, fullParams)
   \<and> has_clause ''LIMIT'' fullQuery \<and> has_clause ''OFFSET'' fullQuery"
proof -
  have p: "positive (limitArg fullArgs)" "positive (offsetArg fullArgs)"
    by code_simp+
  show ?thesis
    using limit_offset_only_when_positive[of "- 5" fullArgs emptyDb 0 fullQuery fullParams]
      build_query_fullArgs p
    by simp
qed

section \<open>Outcomes and driver calls of the resolvers\<close>

lemma finally_end_ok:
  "connection_end db = None \<Longrightarrow> fst (finally_end db rt) = fst rt"
  by (simp add: finally_end_def)

lemma snd_finally_end: "snd (finally_end db rt) = snd rt @ [End]"
  by (simp add: finally_end_def split: option.splits)

lemma events_connected:
  "createConnection db = None \<Longrightarrow> connection_end db = None \<Longrightarrow>
   fst (events db a) = catch_as ''Failed to fetch events'' (fst (events_try db a))"
  by (simp add: events_def finally_end_ok Let_def)




lemma catch_as_Inl: "catch_as msg (Inl e) = Inl (Error msg)"
  by (simp add: catch_as_def)



lemma events_try_invalid:
  "build_query a = Inl e \<Longrightarrow> events_try db a = (Inl e, [])"
  by (simp add: events_try_def)




lemma invalid_sort_field_build:
  assumes "sortArg a = Some s" and "truthy (sortField s)" and "the (sortField s) \<noteq> ''date_time''"
  shows "\<exists>e. build_query a = Inl e"
  using assms
  by (auto simp: build_query_def sort_step_def member_validSortFields split: sum.splits)

lemma invalid_sort_field_generic:
  assumes "createConnection db = None" and "connection_end db = None"
    and "sortArg a = Some s" and "truthy (sortField s)" and "the (sortField s) \<noteq> ''date_time''"
  shows "fst (events db a) = Inl (Error ''Failed to fetch events'')"
proof -
  from invalid_sort_field_build[OF assms(3-5)] obtain e where "build_query a = Inl e" ..
  then show ?thesis
    by (simp add: events_connected[OF assms(1,2)] events_try_invalid catch_as_Inl)
qed

lemma is_Execute_events_try: "list_all is_Execute (snd (events_try db a))"
  by (simp add: events_try_def split: sum.splits)

lemma scoped_bracket: "list_all is_Execute mid \<Longrightarrow> scoped (CreateConnection # mid @ [End])"
  by (simp add: butlast_append)

lemma events_calls:
  "snd (events db a) = (if createConnection db = None then CreateConnection # snd (events_try db a) @ [End] else [])"
  by (auto simp: events_def snd_finally_end Let_def split: option.splits)

lemma uniqueTags_calls:
  "snd (uniqueTags db) = (if createConnection db = None then CreateConnection # snd (uniqueTags_try db) @ [End] else [])"
  by (auto simp: uniqueTags_def snd_finally_end Let_def split: option.splits)

lemma distinctVenues_calls:
  "snd (distinctVenues db) = (if createConnection db = None then CreateConnection # snd (distinctVenues_try db) @ [End] else [])"
  by (auto simp: distinctVenues_def snd_finally_end Let_def split: option.splits)

lemma lastUpdated_calls:
  "snd (lastUpdated db) = (if createConnection db = None then CreateConnection # snd (lastUpdated_try db) @ [End] else [])"
  by (auto simp: lastUpdated_def snd_finally_end Let_def split: option.splits)
text \<open>
  Claim C1, at a failing input. The request \<open>events(sort: {field: "title"})\<close> names a sort
  field outside the allow-list. Building the query throws \<open>Error("Invalid sort field")\<close>,
  but the throw is inside the \<open>try\<close> block, so the \<open>catch\<close> replaces it: the caller gets
  \<open>Error("Failed to fetch events")\<close>, the very error a failed statement gives.
\<close>

theorem invalid_sort_field_surfaces_as_generic_error:
  "build_query badSortArgs = Inl (Error ''Invalid sort field'')
   \<and> fst (events emptyDb badSortArgs) = Inl (Error ''Failed to fetch events'')
   \<and> fst (events failingDb noArgs) = Inl (Error ''Failed to fetch events'')"
  by code_simp

lemma connect_failure_propagates:
  assumes "createConnection db = Some e"
  shows "fst (events db a) = Inl e" and "fst (uniqueTags db) = Inl e"
    and "fst (distinctVenues db) = Inl e" and "fst (lastUpdated db) = Inl e"
  using assms by (simp_all add: events_def uniqueTags_def distinctVenues_def lastUpdated_def)




text \<open>
  Claim C8. Each of the four resolvers opens its connection first and ends it last, on
  every path: when the statement succeeds, when the sort field is refused and when the
  statement fails. The only request with no call to \<open>connection.end\<close> is the one whose
  connection was never opened.
\<close>

theorem connection_released_on_every_path:
  "scoped (snd (events db a)) \<and> (snd (events db a) = [] \<longleftrightarrow> createConnection db \<noteq> None)
   \<and> scoped (snd (uniqueTags db)) \<and> (snd (uniqueTags db) = [] \<longleftrightarrow> createConnection db \<noteq> None)
   \<and> scoped (snd (distinctVenues db)) \<and> (snd (distinctVenues db) = [] \<longleftrightarrow> createConnection db \<noteq> None)
   \<and> scoped (snd (lastUpdated db)) \<and> (snd (lastUpdated db) = [] \<longleftrightarrow> createConnection db \<noteq> None)"
  by (simp add: events_calls uniqueTags_calls distinctVenues_calls lastUpdated_calls butlast_append
        is_Execute_events_try uniqueTags_try_def distinctVenues_try_def lastUpdated_try_def Let_def)

theorem connection_released_on_every_path_witness:
  "snd (events emptyDb fullArgs) = [CreateConnection, Execute fullQuery fullParams, End]
   \<and> snd (events emptyDb badSortArgs) = [CreateConnection, End]
   \<and> snd (events failingDb noArgs) = [CreateConnection, Execute base_query [], End]
   \<and> scoped (snd (events emptyDb fullArgs))
   \<and> scoped (snd (events emptyDb badSortArgs))
   \<and> scoped (snd (events failingDb noArgs))
   \<and> scoped (snd (uniqueTags failingDb))"
proof -
  have c: "snd (events emptyDb fullArgs) = [CreateConnection, Execute fullQuery fullParams, End]"
    "snd (events emptyDb badSortArgs) = [CreateConnection, End]"
    "snd (events failingDb noArgs) = [CreateConnection, Execute base_query [], End]"
    by code_simp+
  show ?thesis
    using connection_released_on_every_path[of emptyDb fullArgs]
      connection_released_on_every_path[of emptyDb badSortArgs]
      connection_released_on_every_path[of failingDb noArgs]
    by (simp only: c)
qed

section \<open>Letter case and the sort clause\<close>

lemma code_toLowerCase_char:
  "(of_char (toLowerCase_char c) :: nat)
     = (if 65 \<le> (of_char c :: nat) \<and> (of_char c :: nat) \<le> 90 then of_char c + 32 else of_char c)"
  by (simp add: toLowerCase_char_def Let_def)

lemma char_eq_code: "c = d \<longleftrightarrow> (of_char c :: nat) = of_char d"
  by simp

lemma toUpperCase_DESC: "toUpperCase ''DESC'' = ''DESC''"
  by code_simp

lemma sortOrder_descending:
  "(truthy ord \<and> toUpperCase (the ord) = ''DESC'') = descending_requested ord"
proof (cases ord)
  case None
  then show ?thesis by (simp add: truthy_def descending_requested_def)
next
  case (Some d)
  have ne: "toUpperCase d = ''DESC'' \<Longrightarrow> d \<noteq> []"
    by auto
  have "descending_requested (Some d) = (toUpperCase d = ''DESC'')"
    unfolding descending_requested_def equals_ignoring_case_def toUpperCase_DESC by simp
  with Some ne show ?thesis
    by (auto simp: truthy_def)
qed

lemma sort_step_date_time:
  assumes "sortField s = Some ''date_time''"
  shows "sort_step (Some s) qp
       = Inr (fst qp @ '' ORDER BY `date_time` '' @ direction (sortOrder s), snd qp)"
proof -
  have t: "truthy (sortField s)" and f: "the (sortField s) = ''date_time''"
    using assms by (simp_all add: truthy_def)
  show ?thesis
    by (simp add: sort_step_def t f sortOrder_descending direction_def member_validSortFields
          escapeId_date_time Let_def)
qed

lemma build_query_date_time:
  assumes "build_filters a = Inr (qf, pf)" and "sortArg a = Some s"
    and "sortField s = Some ''date_time''"
  shows "build_query a
       = Inr (offset_step (offsetArg a) (limit_step (limitArg a)
                (qf @ '' ORDER BY `date_time` '' @ direction (sortOrder s), pf)))"
  using assms by (simp add: build_query_def sort_step_date_time)

lemma every_letter_case_of_DESC:
  assumes "d \<in> set (letter_cases ''DESC'')"
  shows "descending_requested (Some d)"
proof -
  have "list_all (\<lambda>d. descending_requested (Some d)) (letter_cases ''DESC'')"
    by code_simp
  with assms show ?thesis
    unfolding list_all_iff by blast
qed

lemma occurs_prefix: "occurs ws (ws @ post)"
proof (cases "ws @ post")
  case Nil
  then show ?thesis by simp
next
  case (Cons x xs)
  have "take (length ws) (ws @ post) = ws"
    by simp
  then have "take (length ws) (x # xs) = ws"
    by (simp only: Cons)
  then have "occurs ws (x # xs)"
    by simp
  then show ?thesis
    by (simp only: Cons)
qed

lemma occurs_append: "occurs ws (pre @ ws @ post)"
  by (induction pre) (simp_all add: occurs_prefix)

lemma orders_by_words:
  "split CHR '' '' q = pre @ [''ORDER'', ''BY'', ''`date_time`'', dir] @ post \<Longrightarrow> orders_by q dir"
  unfolding orders_by_def by (simp only: occurs_append)

lemma orders_by_built:
  assumes "dir = ''ASC'' \<or> dir = ''DESC''"
  shows "orders_by (fst (offset_step off (limit_step lim (qf @ '' ORDER BY `date_time` '' @ dir, pf)))) dir"
proof -
  have w: "split CHR '' '' (qf @ '' ORDER BY `date_time` '' @ dir)
        = split CHR '' '' qf @ [''ORDER'', ''BY'', ''`date_time`'', dir] @ []"
    using assms by (auto simp: split_append_sep)
  have l: "split CHR '' '' (x @ '' LIMIT ?'') = split CHR '' '' x @ [''LIMIT'', ''?'']" for x
    by (simp add: split_append_sep)
  have o: "split CHR '' '' (x @ '' OFFSET ?'') = split CHR '' '' x @ [''OFFSET'', ''?'']" for x
    by (simp add: split_append_sep)
  consider (none) "\<not> positive lim" "\<not> positive off" | (lim) "positive lim" "\<not> positive off"
    | (off) "\<not> positive lim" "positive off" | (both) "positive lim" "positive off"
    by blast
  then show ?thesis
  proof cases
    case none
    then have "fst (offset_step off (limit_step lim (qf @ '' ORDER BY `date_time` '' @ dir, pf)))
        = qf @ '' ORDER BY `date_time` '' @ dir"
      by (auto simp: offset_step_def limit_step_def positive_def split: option.splits)
    then show ?thesis
      using orders_by_words[OF w] by simp
  next
    case lim
    then have "fst (offset_step off (limit_step lim (qf @ '' ORDER BY `date_time` '' @ dir, pf)))
        = (qf @ '' ORDER BY `date_time` '' @ dir) @ '' LIMIT ?''"
      by (auto simp: offset_step_def limit_step_def positive_def push_clause_def split: option.splits)
    moreover have "split CHR '' '' ((qf @ '' ORDER BY `date_time` '' @ dir) @ '' LIMIT ?'')
        = split CHR '' '' qf @ [''ORDER'', ''BY'', ''`date_time`'', dir] @ [''LIMIT'', ''?'']"
      unfolding l w by simp
    ultimately show ?thesis
      using orders_by_words by simp
  next
    case off
    then have "fst (offset_step off (limit_step lim (qf @ '' ORDER BY `date_time` '' @ dir, pf)))
        = (qf @ '' ORDER BY `date_time` '' @ dir) @ '' OFFSET ?''"
      by (auto simp: offset_step_def limit_step_def positive_def push_clause_def split: option.splits)
    moreover have "split CHR '' '' ((qf @ '' ORDER BY `date_time` '' @ dir) @ '' OFFSET ?'')
        = split CHR '' '' qf @ [''ORDER'', ''BY'', ''`date_time`'', dir] @ [''OFFSET'', ''?'']"
      unfolding o w by simp
    ultimately show ?thesis
      using orders_by_words by simp
  next
    case both
    then have "fst (offset_step off (limit_step lim (qf @ '' ORDER BY `date_time` '' @ dir, pf)))
        = ((qf @ '' ORDER BY `date_time` '' @ dir) @ '' LIMIT ?'') @ '' OFFSET ?''"
      by (auto simp: offset_step_def limit_step_def positive_def push_clause_def split: option.splits)
    moreover have "split CHR '' '' (((qf @ '' ORDER BY `date_time` '' @ dir) @ '' LIMIT ?'') @ '' OFFSET ?'')
        = split CHR '' '' qf @ [''ORDER'', ''BY'', ''`date_time`'', dir] @ [''LIMIT'', ''?'', ''OFFSET'', ''?'']"
      unfolding o l w by simp
    ultimately show ?thesis
      using orders_by_words by simp
  qed
qed

lemma direction_cases: "direction ord = ''ASC'' \<or> direction ord = ''DESC''"
  by (simp add: direction_def)

lemma events_returns_rows:
  assumes "createConnection db = None" and "connection_end db = None"
    and "build_query a = Inr (q, ps)" and "execute db q ps = Inr rows"
  shows "fst (events db a) = Inr rows"
  using assms by (simp add: events_connected events_try_def catch_as_def)

lemma events_success:
  assumes "fst (events db a) = Inr rows"
  shows "\<exists>q ps. build_query a = Inr (q, ps) \<and> execute db q ps = Inr rows"
proof -
  have c: "createConnection db = None"
    using assms by (cases "createConnection db") (auto simp: events_def)
  have e: "connection_end db = None"
    using assms c by (cases "connection_end db") (auto simp: events_def finally_end_def Let_def)
  from assms have "catch_as ''Failed to fetch events'' (fst (events_try db a)) = Inr rows"
    by (simp add: events_connected[OF c e])
  then have "fst (events_try db a) = Inr rows"
    by (auto simp: catch_as_def split: sum.splits)
  then show ?thesis
    by (cases "build_query a") (auto simp: events_try_def)
qed

lemma calendarDb_honours_order_by:
  "\<forall>q ps rows. execute calendarDb q ps = Inr rows \<longrightarrow>
     (orders_by q ''ASC'' \<longrightarrow> ascending datetime_le rows)
     \<and> (orders_by q ''DESC'' \<longrightarrow> descending datetime_le rows)"
proof -
  have a: "ascending datetime_le [rowAt ''2024-01-12 19:30:00'', rowAt ''2024-03-05 20:00:00'']"
    by code_simp
  have d: "descending datetime_le [rowAt ''2024-03-05 20:00:00'', rowAt ''2024-01-12 19:30:00'']"
    by code_simp
  have e: "ascending datetime_le []" "descending datetime_le []"
    by (simp_all add: ascending_def descending_def)
  show ?thesis
    using a d e by (auto simp: calendarDb_def split: if_splits)
qed

text \<open>
  Claim C6. Take a request whose sort field is the permitted \<open>date_time\<close>, and a database
  that honours \<open>ORDER BY\<close>: the rows it answers to a statement that orders by \<open>date_time\<close>
  ascending are ascending in the order of the column, and descending for a statement that
  orders descending. Then the statement \<open>events\<close> builds has the clause
  \<open>ORDER BY `date_time`\<close> with the direction of the sort order, followed by the limit and
  offset clauses; \<open>events\<close> returns the very rows the database answers to it; and these
  rows are ascending when the order is absent or is not \<open>DESC\<close> up to letter case, and
  descending when it is. Every spelling of \<open>DESC\<close> in upper and lower case letters is
  \<open>DESC\<close> up to letter case, and an absent order is not.
\<close>

theorem sort_defaults_to_ascending:
  assumes "sortArg a = Some s" and "sortField s = Some ''date_time''"
    and "\<forall>q ps rows. execute db q ps = Inr rows \<longrightarrow>
           (orders_by q ''ASC'' \<longrightarrow> ascending le rows)
           \<and> (orders_by q ''DESC'' \<longrightarrow> descending le rows)"
  shows "(build_filters a = Inr (qf, pf) \<longrightarrow>
            build_query a
              = Inr (offset_step (offsetArg a) (limit_step (limitArg a)
                       (qf @ '' ORDER BY `date_time` '' @ direction (sortOrder s), pf))))
       \<and> (build_query a = Inr (q, ps) \<longrightarrow> orders_by q (direction (sortOrder s)))
       \<and> (createConnection db = None \<and> connection_end db = None
            \<and> build_query a = Inr (q, ps) \<and> execute db q ps = Inr rows \<longrightarrow>
              fst (events db a) = Inr rows
              \<and> (if descending_requested (sortOrder s) then descending le rows
                  else ascending le rows))
       \<and> (fst (events db a) = Inr rows' \<longrightarrow>
              (\<exists>q' ps'. build_query a = Inr (q', ps') \<and> execute db q' ps' = Inr rows')
              \<and> (if descending_requested (sortOrder s) then descending le rows'
                  else ascending le rows'))
       \<and> \<not> descending_requested None
       \<and> (d \<in> set (letter_cases ''DESC'') \<longrightarrow> descending_requested (Some d))"
proof -
  have built: "orders_by q0 (direction (sortOrder s))" if "build_query a = Inr (q0, ps0)" for q0 ps0
  proof -
    from that obtain qp where f: "build_filters a = Inr qp"
      by (cases "build_filters a") (auto simp: build_query_def)
    obtain qf0 pf0 where qp: "qp = (qf0, pf0)"
      by (cases qp)
    from build_query_date_time[OF f[unfolded qp] assms(1,2)] that
    have "q0 = fst (offset_step (offsetArg a) (limit_step (limitArg a)
                 (qf0 @ '' ORDER BY `date_time` '' @ direction (sortOrder s), pf0)))"
      by (metis fst_conv sum.inject(2))
    then show ?thesis
      by (simp only: orders_by_built[OF direction_cases])
  qed
  have ordered: "if descending_requested (sortOrder s) then descending le rs else ascending le rs"
    if "build_query a = Inr (q0, ps0)" and "execute db q0 ps0 = Inr rs" for q0 ps0 rs
    using built[OF that(1)] assms(3) that(2) by (auto simp: direction_def)
  have returned: "(\<exists>q' ps'. build_query a = Inr (q', ps') \<and> execute db q' ps' = Inr rows')
      \<and> (if descending_requested (sortOrder s) then descending le rows' else ascending le rows')"
    if "fst (events db a) = Inr rows'"
    using events_success[OF that] ordered by blast
  show ?thesis
    using build_query_date_time[OF _ assms(1,2), of qf pf] built[of q ps]
      events_returns_rows[of db a q ps rows] ordered[of q ps rows] returned
      every_letter_case_of_DESC[of d]
    by (simp add: descending_requested_def)
qed

theorem sort_defaults_to_ascending_witness:
  "build_query ascArgs = Inr (''SELECT * FROM events WHERE 1=1 ORDER BY `date_time` ASC'', [])
   \<and> build_query descArgs = Inr (''SELECT * FROM events WHERE 1=1 ORDER BY `date_time` DESC'', [])
   \<and> fst (events calendarDb ascArgs)
       = Inr [rowAt ''2024-01-12 19:30:00'', rowAt ''2024-03-05 20:00:00'']
   \<and> ascending datetime_le [rowAt ''2024-01-12 19:30:00'', rowAt ''2024-03-05 20:00:00'']
   \<and> fst (events calendarDb descArgs)
       = Inr [rowAt ''2024-03-05 20:00:00'', rowAt ''2024-01-12 19:30:00'']
   \<and> descending datetime_le [rowAt ''2024-03-05 20:00:00'', rowAt ''2024-01-12 19:30:00'']
   \<and> descending_requested (Some ''dEsC'')
   \<and> build_query longSArgs = Inr (''SELECT * FROM events WHERE 1=1 ORDER BY `date_time` DESC'', [])"
proof -
  have ls: "build_query longSArgs = Inr (''SELECT * FROM events WHERE 1=1 ORDER BY `date_time` DESC'', [])"
    by code_simp
  have b: "build_query ascArgs = Inr (''SELECT * FROM events WHERE 1=1 ORDER BY `date_time` ASC'', [])"
    "build_query descArgs = Inr (''SELECT * FROM events WHERE 1=1 ORDER BY `date_time` DESC'', [])"
    by code_simp+
  have s: "sortArg ascArgs = Some \<lparr>sortField = Some ''date_time'', sortOrder = None\<rparr>"
    "sortArg descArgs = Some \<lparr>sortField = Some ''date_time'', sortOrder = Some ''dEsC''\<rparr>"
    by (simp_all add: ascArgs_def descArgs_def)
  have f: "sortField \<lparr>sortField = Some ''date_time'', sortOrder = ord\<rparr> = Some ''date_time''" for ord
    by simp
  have c: "createConnection calendarDb = None" "connection_end calendarDb = None"
    by (simp_all add: calendarDb_def)
  have x: "execute calendarDb ''SELECT * FROM events WHERE 1=1 ORDER BY `date_time` ASC'' []
             = Inr [rowAt ''2024-01-12 19:30:00'', rowAt ''2024-03-05 20:00:00'']"
    "execute calendarDb ''SELECT * FROM events WHERE 1=1 ORDER BY `date_time` DESC'' []
             = Inr [rowAt ''2024-03-05 20:00:00'', rowAt ''2024-01-12 19:30:00'']"
    by code_simp+
  have m: "''dEsC'' \<in> set (letter_cases ''DESC'')"
    by code_simp
  have n: "\<not> descending_requested None"
    by (simp add: descending_requested_def)
  note asc = sort_defaults_to_ascending[OF s(1) f calendarDb_honours_order_by,
      where qf = base_query and pf = "[]"
        and q = "''SELECT * FROM events WHERE 1=1 ORDER BY `date_time` ASC''" and ps = "[]"
        and rows = "[rowAt ''2024-01-12 19:30:00'', rowAt ''2024-03-05 20:00:00'']"
        and rows' = "[rowAt ''2024-01-12 19:30:00'', rowAt ''2024-03-05 20:00:00'']"
        and d = "''dEsC''"]
  note desc = sort_defaults_to_ascending[OF s(2) f calendarDb_honours_order_by,
      where qf = base_query and pf = "[]"
        and q = "''SELECT * FROM events WHERE 1=1 ORDER BY `date_time` DESC''" and ps = "[]"
        and rows = "[rowAt ''2024-03-05 20:00:00'', rowAt ''2024-01-12 19:30:00'']"
        and rows' = "[rowAt ''2024-03-05 20:00:00'', rowAt ''2024-01-12 19:30:00'']"
        and d = "''dEsC''"]
  have dr: "descending_requested (Some ''dEsC'')"
    using asc m by blast
  show ?thesis
    using asc desc dr n ls by (simp add: b c x)
qed

text \<open>
  Claim C9. When the offset is a positive number and the limit is absent, zero or
  negative, the built statement has an \<open>OFFSET\<close> clause and no \<open>LIMIT\<close> clause, and this
  statement is the one sent to the database. On a database that refuses such a statement,
  as MySQL's grammar does, the request fails with the generic fetch error.
\<close>

theorem offset_without_limit_fails:
  assumes "positive (offsetArg a)" and "\<not> positive (limitArg a)"
    and "createConnection db = None" and "connection_end db = None"
    and "\<forall>q ps. has_clause ''OFFSET'' q \<and> \<not> has_clause ''LIMIT'' q \<longrightarrow> (\<exists>e. execute db q ps = Inl e)"
  shows "(build_query a = Inr (q, ps) \<longrightarrow>
            has_clause ''OFFSET'' q \<and> \<not> has_clause ''LIMIT'' q
            \<and> snd (events db a) = [CreateConnection, Execute q ps, End])
         \<and> fst (events db a) = Inl (Error ''Failed to fetch events'')"
proof -
  have shape: "has_clause ''OFFSET'' q' \<and> \<not> has_clause ''LIMIT'' q'" if "build_query a = Inr (q', ps')" for q' ps'
    using build_query_clauses(1,2)[OF that] assms(1,2) by simp
  have calls: "snd (events db a) = [CreateConnection, Execute q ps, End]" if "build_query a = Inr (q, ps)"
    using that assms(3) by (simp add: events_calls events_try_def)
  have "\<exists>e. fst (events_try db a) = Inl e"
  proof (cases "build_query a")
    case (Inl e)
    then show ?thesis by (simp add: events_try_def)
  next
    case (Inr qp)
    obtain q' ps' where qp: "qp = (q', ps')" by (cases qp)
    from shape[of q' ps'] Inr qp assms(5) obtain e where "execute db q' ps' = Inl e" by blast
    with Inr qp show ?thesis by (simp add: events_try_def)
  qed
  then have "fst (events db a) = Inl (Error ''Failed to fetch events'')"
    by (auto simp: events_connected[OF assms(3,4)] catch_as_Inl)
  with shape calls show ?thesis by blast
qed

theorem offset_without_limit_fails_witness:
  "positive (offsetArg offsetOnlyArgs) \<and> \<not> positive (limitArg offsetOnlyArgs)
   \<and> build_query offsetOnlyArgs = Inr (''SELECT * FROM events WHERE 1=1 OFFSET ?'', [''20''])
   \<and> has_clause ''OFFSET'' ''SELECT * FROM events WHERE 1=1 OFFSET ?''
   \<and> \<not> has_clause ''LIMIT'' ''SELECT * FROM events WHERE 1=1 OFFSET ?''
   \<and> fst (events strictDb offsetOnlyArgs) = Inl (Error ''Failed to fetch events'')"
proof -
  have p: "positive (offsetArg offsetOnlyArgs)" "\<not> positive (limitArg offsetOnlyArgs)"
    by code_simp+
  have c: "createConnection strictDb = None" "connection_end strictDb = None"
    by (simp_all add: strictDb_def)
  have r: "\<forall>q ps. has_clause ''OFFSET'' q \<and> \<not> has_clause ''LIMIT'' q \<longrightarrow> (\<exists>e. execute strictDb q ps = Inl e)"
    by (simp add: strictDb_def)
  have b: "build_query offsetOnlyArgs = Inr (''SELECT * FROM events WHERE 1=1 OFFSET ?'', [''20''])"
    by code_simp
  show ?thesis
    using offset_without_limit_fails[OF p c r, of "''SELECT * FROM events WHERE 1=1 OFFSET ?''" "[''20'']"] p b
    by simp
qed

section \<open>Tag matching\<close>

lemma toLowerCase_char_comma: "toLowerCase_char c = CHR '','' \<longleftrightarrow> c = CHR '',''"
  unfolding char_eq_code[of "toLowerCase_char c"] char_eq_code[of c] code_toLowerCase_char
  by auto

lemma toLowerCase_char_idem: "toLowerCase_char (toLowerCase_char c) = toLowerCase_char c"
  unfolding char_eq_code[of "toLowerCase_char (toLowerCase_char c)"] code_toLowerCase_char
  by auto

lemma LOWER_toLowerCase: "LOWER (toLowerCase x) = toLowerCase x"
  by (simp add: LOWER_def toLowerCase_def toLowerCase_char_idem)

lemma split_map:
  assumes "\<And>c. f c = sep \<longleftrightarrow> c = sep"
  shows "split sep (map f s) = map (map f) (split sep s)"
proof (induction s)
  case Nil
  show ?case by simp
next
  case (Cons c cs)
  obtain p ps where "split sep cs = p # ps"
    using split_not_Nil[of sep cs] by (cases "split sep cs") auto
  with Cons assms show ?case by simp
qed

lemma set_elements_LOWER: "set_elements (LOWER s) = map toLowerCase (set_elements s)"
proof -
  have "split CHR '','' (map toLowerCase_char s) = map (map toLowerCase_char) (split CHR '','' s)"
    by (rule split_map) (rule toLowerCase_char_comma)
  then show ?thesis
    by (auto simp: set_elements_def LOWER_def toLowerCase_def)
qed

lemma position_positive: "position str es > 0 \<longleftrightarrow> str \<in> set es"
  by (induction es) (auto split: nat.splits)

lemma FIND_IN_SET_positive: "FIND_IN_SET str strlist > 0 \<longleftrightarrow> str \<in> set (set_elements strlist)"
  by (simp add: FIND_IN_SET_def position_positive)

lemma isWhiteSpace_toLowerCase_char: "isWhiteSpace (toLowerCase_char c) = isWhiteSpace c"
  unfolding isWhiteSpace_def code_toLowerCase_char by auto

lemma dropWhile_toLowerCase:
  "dropWhile isWhiteSpace (map toLowerCase_char s) = map toLowerCase_char (dropWhile isWhiteSpace s)"
  by (induction s) (simp_all add: isWhiteSpace_toLowerCase_char)

lemma trim_toLowerCase: "trim (toLowerCase s) = toLowerCase (trim s)"
  by (simp add: trim_def toLowerCase_def dropWhile_toLowerCase rev_map)

lemma dropWhile_twice: "dropWhile P (dropWhile P s) = dropWhile P s"
  by (induction s) simp_all

lemma dropWhile_rev_dropWhile:
  "dropWhile P (rev (dropWhile P (rev (dropWhile P s)))) = rev (dropWhile P (rev (dropWhile P s)))"
proof (cases "\<forall>c \<in> set (dropWhile P s). P c")
  case True
  then have n: "dropWhile P (rev (dropWhile P s)) = []"
    by simp
  show ?thesis
    unfolding n by simp
next
  case False
  then have ne: "dropWhile P s \<noteq> []"
    by (auto simp del: dropWhile_eq_Nil_conv)
  then have h: "\<not> P (hd (dropWhile P s))"
    by (rule hd_dropWhile)
  obtain x xs where x: "dropWhile P s = x # xs"
    using ne by (cases "dropWhile P s") auto
  have "dropWhile P (rev xs @ [x]) = dropWhile P (rev xs) @ (if \<forall>c \<in> set (rev xs). P c then dropWhile P [x] else [x])"
    by (simp add: dropWhile_append)
  moreover have "dropWhile P [x] = [x]"
    using h x by simp
  ultimately have "dropWhile P (rev (x # xs)) = dropWhile P (rev xs) @ [x]"
    by simp
  then have "rev (dropWhile P (rev (dropWhile P s))) = x # rev (dropWhile P (rev xs))"
    by (simp add: x)
  then show ?thesis
    using h x by simp
qed

lemma trim_trim: "trim (trim s) = trim s"
proof -
  have "dropWhile isWhiteSpace (trim s) = trim s"
    unfolding trim_def by (rule dropWhile_rev_dropWhile)
  then show ?thesis
    by (simp add: trim_def dropWhile_twice)
qed

lemma record_tags_Some:
  "tags row = Some s \<Longrightarrow> record_tags row = map (\<lambda>tag. toLowerCase (trim tag)) (split CHR '','' s)"
  by (simp add: record_tags_def)

lemma record_tags_None: "tags row = None \<Longrightarrow> record_tags row = []"
  by (simp add: record_tags_def)

text \<open>
  What does hold between the tags group and the tags the repository lists: a record that
  satisfies the group lists one of the requested tags. The converse needs the stored
  elements to carry no white space around them, and the column not to be empty.
\<close>

lemma tag_condition_listed:
  assumes "tag_condition (toLowerCase (trim t)) row"
  shows "listed_on (toLowerCase (trim t)) row"
proof -
  from assms obtain s where s: "tags row = Some s"
    and "toLowerCase (trim t) \<in> set (map toLowerCase (set_elements s))"
    by (cases "tags row")
       (auto simp: tag_condition_def FIND_IN_SET_positive LOWER_toLowerCase set_elements_LOWER)
  then obtain e where e: "e \<in> set (split CHR '','' s)" and eq: "toLowerCase (trim t) = toLowerCase e"
    by (auto simp: set_elements_def split: if_splits)
  have "toLowerCase (trim e) = trim (toLowerCase (trim t))"
    by (simp add: eq trim_toLowerCase)
  also have "\<dots> = toLowerCase (trim t)"
    by (simp add: trim_toLowerCase trim_trim)
  finally have "toLowerCase (trim t) = toLowerCase (trim e)"
    by simp
  with e show ?thesis
    by (auto simp: listed_on_def record_tags_Some[OF s])
qed

lemma tags_group_listed:
  assumes "tags_group (map (\<lambda>t. toLowerCase (trim (the t))) ts) row"
  shows "\<exists>t \<in> set ts. listed_on (toLowerCase (trim (the t))) row"
  using assms by (auto simp: tags_group_def list_ex_iff intro: tag_condition_listed)

lemma listed_tag_condition:
  assumes "tags row = Some s" and "s \<noteq> []"
    and "\<forall>e \<in> set (split CHR '','' s). trim e = e"
    and "listed_on (toLowerCase (trim t)) row"
  shows "tag_condition (toLowerCase (trim t)) row"
proof -
  have "record_tags row = map toLowerCase (set_elements s)"
    using assms(2,3) by (simp add: record_tags_Some[OF assms(1)] set_elements_def)
  with assms(4) show ?thesis
    by (simp add: listed_on_def tag_condition_def assms(1) FIND_IN_SET_positive
          LOWER_toLowerCase set_elements_LOWER)
qed

text \<open>
  Claim C5, at a failing input. The request \<open>events(tags: ["jazz"])\<close> meets a record
  whose tags column is \<open>music, jazz\<close>. The tags step appends one group with one condition
  and the parameter \<open>jazz\<close>. The record's tag list, as the repository lists it, is \<open>music\<close>
  and \<open>jazz\<close>, and the requested tag, trimmed and lowercased, is one of its elements; yet
  the record does not satisfy the group, because \<open>FIND_IN_SET\<close> meets the stored element
  with the space before it.
\<close>

theorem listed_tag_does_not_satisfy_the_group:
  "tags_step (Some [Some ''jazz'']) (base_query, [])
     = Inr (''SELECT * FROM events WHERE 1=1 AND (FIND_IN_SET(LOWER(?), LOWER(tags)) > 0)'', [''jazz''])
   \<and> record_tags (rowWithTags ''music, jazz'') = [''music'', ''jazz'']
   \<and> listed_on (toLowerCase (trim ''jazz'')) (rowWithTags ''music, jazz'')
   \<and> \<not> tags_group [toLowerCase (trim ''jazz'')] (rowWithTags ''music, jazz'')"
  by code_simp

text \<open>
  Claim C3, at a failing input. The request \<open>events(tags: ["jazz"])\<close> meets a record
  whose tags column is \<open>music, jazz\<close>. The stored element is \<open>jazz\<close> with a space before
  it, \<open>FIND_IN_SET\<close> compares elements as they stand, and the record does not match, while
  the same tags stored as \<open>music,jazz\<close> do. \<open>uniqueTags\<close> trims the stored elements and
  lists \<open>jazz\<close> for that record.
\<close>

theorem stored_tag_whitespace_defeats_match:
  "tags_step (Some [Some ''jazz'']) (base_query, [])
     = Inr (''SELECT * FROM events WHERE 1=1 AND (FIND_IN_SET(LOWER(?), LOWER(tags)) > 0)'', [''jazz''])
   \<and> tags_group [''jazz''] (rowWithTags ''music,jazz'')
   \<and> \<not> tags_group [''jazz''] (rowWithTags ''music, jazz'')
   \<and> fst (uniqueTags spacedDb) = Inr [''music'', ''jazz'']"
  by code_simp

end
